theory Spec2Isabelle
  imports Complex_Main "HOL-Library.Char_ord" "HOL-Library.List_Lexorder"
    "HOL-Library.Product_Lexorder"
begin

section \<open>Python values and dictionaries\<close>

text \<open>
  The values that travel through \<^verbatim>\<open>app.py\<close>: what \<^verbatim>\<open>resp.json()\<close> yields, the raw text of
  a response (a Python \<^verbatim>\<open>str\<close>, here \<open>PStr\<close>) and the dictionaries the handlers build.
  Strings are lists of characters; a character stands for a code point below 256.
\<close>

datatype pyval =
    PNone
  | PBool bool
  | PNum rat
  | PStr string
  | PList "pyval list"
  | PDict "(string \<times> pyval) list"

fun is_dict :: "pyval \<Rightarrow> bool" where
  "is_dict (PDict _) = True"
| "is_dict _ = False"

text \<open>
  A \<^verbatim>\<open>dict\<close> of strings is an association list with distinct keys, in insertion order.
\<close>

type_synonym params = "(string \<times> string) list"

definition dict_contains :: "string \<Rightarrow> params \<Rightarrow> bool" where
  "dict_contains k d = (k \<in> set (map fst d))"

text \<open>\<^verbatim>\<open>d[k] = v\<close>: an existing key keeps its position, a new key goes last.\<close>

fun dict_set :: "string \<Rightarrow> string \<Rightarrow> params \<Rightarrow> params" where
  "dict_set k v [] = [(k, v)]"
| "dict_set k v ((k', v') # d) =
     (if k' = k then (k, v) # d else (k', v') # dict_set k v d)"

text \<open>\<^verbatim>\<open>d.pop(k)\<close> on a key that is present: the value, and the dictionary without the key.\<close>

definition dict_pop :: "string \<Rightarrow> params \<Rightarrow> string option \<times> params" where
  "dict_pop k d = (map_of d k, filter (\<lambda>kv. fst kv \<noteq> k) d)"

text \<open>
  \<^verbatim>\<open>request.args\<close> is a multi-dictionary: the query pairs in the order of the query string,
  a name possibly several times. \<^verbatim>\<open>args.get(k)\<close> is the first value of \<open>k\<close> or \<^verbatim>\<open>None\<close>;
  \<^verbatim>\<open>dict(request.args)\<close> keeps, for each name, its first value.
\<close>

definition args_get :: "params \<Rightarrow> string \<Rightarrow> string option" where
  "args_get args k = map_of args k"

fun dict_of_args :: "params \<Rightarrow> params" where
  "dict_of_args [] = []"
| "dict_of_args ((k, v) # args) = (k, v) # dict_of_args (filter (\<lambda>kv. fst kv \<noteq> k) args)"

text \<open>Truthiness of an optional string, and Python's \<^verbatim>\<open>or\<close> on two of them.\<close>

fun truthy :: "string option \<Rightarrow> bool" where
  "truthy None = False"
| "truthy (Some s) = (s \<noteq> [])"

definition py_or :: "string option \<Rightarrow> string option \<Rightarrow> string option" where
  "py_or a b = (if truthy a then a else b)"

section \<open>The cache key\<close>

text \<open>
  \<^verbatim>\<open>_cache_key\<close> formats \<^verbatim>\<open>f"{path}|{items}"\<close>, where \<open>items\<close> is the tuple of the sorted
  \<^verbatim>\<open>(name, value)\<close> pairs: the text of the tuple is its \<^verbatim>\<open>repr\<close>. The \<^verbatim>\<open>repr\<close> of a string
  picks the quote (a double quote only when the string has a single quote and no double
  quote), escapes the backslash and the chosen quote, writes tab, newline and carriage
  return as \<^verbatim>\<open>\t\<close>, \<^verbatim>\<open>\n\<close>, \<^verbatim>\<open>\r\<close>, and writes every other non-printable character as
  \<^verbatim>\<open>\xhh\<close>.
\<close>

definition hex_digit :: "nat \<Rightarrow> char" where
  "hex_digit n = ''0123456789abcdef'' ! (n mod 16)"

definition py_isprintable :: "char \<Rightarrow> bool" where
  "py_isprintable c =
     (let n = (of_char c :: nat)
      in 32 \<le> n \<and> n < 127 \<or> 160 < n \<and> n \<noteq> 173)"

definition repr_char :: "char \<Rightarrow> char \<Rightarrow> string" where
  "repr_char q c =
     (if c = q \<or> c = CHR 0x5C then [CHR 0x5C, c]
      else if c = CHR 0x09 then [CHR 0x5C, CHR ''t'']
      else if c = CHR 0x0A then [CHR 0x5C, CHR ''n'']
      else if c = CHR 0x0D then [CHR 0x5C, CHR ''r'']
      else if \<not> py_isprintable c
        then [CHR 0x5C, CHR ''x'', hex_digit (of_char c div 16), hex_digit (of_char c)]
      else [c])"

definition repr_quote :: "string \<Rightarrow> char" where
  "repr_quote s =
     (if CHR 0x27 \<in> set s \<and> CHR 0x22 \<notin> set s then CHR 0x22 else CHR 0x27)"

definition repr_str :: "string \<Rightarrow> string" where
  "repr_str s = (let q = repr_quote s in [q] @ concat (map (repr_char q) s) @ [q])"

definition repr_pair :: "string \<times> string \<Rightarrow> string" where
  "repr_pair kv = ''('' @ repr_str (fst kv) @ '', '' @ repr_str (snd kv) @ '')''"

fun repr_elems :: "(string \<times> string) list \<Rightarrow> string" where
  "repr_elems [] = []"
| "repr_elems [kv] = repr_pair kv"
| "repr_elems (kv # kvs) = repr_pair kv @ '', '' @ repr_elems kvs"

definition repr_tuple :: "(string \<times> string) list \<Rightarrow> string" where
  "repr_tuple items =
     (case items of
        [] \<Rightarrow> ''()''
      | [kv] \<Rightarrow> ''('' @ repr_pair kv @ '',)''
      | _ \<Rightarrow> ''('' @ repr_elems items @ '')'')"

definition sorted_items :: "params \<Rightarrow> (string \<times> string) list" where
  "sorted_items ps = sort ps"

definition cache_key :: "string \<Rightarrow> params \<Rightarrow> string" where
  "cache_key path ps = path @ ''|'' @ repr_tuple (sorted_items ps)"

section \<open>The upstream client\<close>

text \<open>
  Exceptions are values. The first three are subclasses of
  \<^verbatim>\<open>requests.exceptions.RequestException\<close>; \<open>ValueError\<close> is what \<^verbatim>\<open>resp.json()\<close> raises on a
  body that is not JSON, \<open>KeyError\<close> what an empty cache raises on \<^verbatim>\<open>popitem\<close>. The string is
  the text of \<^verbatim>\<open>str(e)\<close>, abridged to the cause.
\<close>

datatype exc =
    ConnectionError string
  | RetryError string
  | HTTPError string
  | ValueError string
  | KeyError string

fun is_RequestException :: "exc \<Rightarrow> bool" where
  "is_RequestException (ConnectionError _) = True"
| "is_RequestException (RetryError _) = True"
| "is_RequestException (HTTPError _) = True"
| "is_RequestException _ = False"

fun is_ValueError :: "exc \<Rightarrow> bool" where
  "is_ValueError (ValueError _) = True"
| "is_ValueError _ = False"

fun str_exc :: "exc \<Rightarrow> string" where
  "str_exc (ConnectionError m) = m"
| "str_exc (RetryError m) = m"
| "str_exc (HTTPError m) = m"
| "str_exc (ValueError m) = m"
| "str_exc (KeyError m) = m"

text \<open>\<^verbatim>\<open>str\<close> of an integer, for the messages.\<close>

definition digit_char :: "nat \<Rightarrow> char" where
  "digit_char n = ''0123456789'' ! (n mod 10)"

function str_nat :: "nat \<Rightarrow> string" where
  "str_nat n = (if n < 10 then [digit_char n] else str_nat (n div 10) @ [digit_char n])"
  by pat_completeness auto
termination
  by (relation "measure id") auto

definition str_int :: "int \<Rightarrow> string" where
  "str_int i = (if i < 0 then ''-'' @ str_nat (nat (- i)) else str_nat (nat i))"

text \<open>
  What one attempt against the upstream API gives: no connection, a connection that
  breaks or times out while the answer is read, or a response. \<open>json_body\<close> is what
  \<^verbatim>\<open>resp.json()\<close> returns, \<open>None\<close> when the body does not parse; \<open>retry_after\<close> says whether
  the response carries a \<^verbatim>\<open>Retry-After\<close> header.
\<close>

record response =
  status_code :: int
  reason :: string
  url :: string
  resp_text :: string
  json_body :: "pyval option"
  retry_after :: bool

datatype outcome =
    ConnectFailure string
  | ReadFailure string
  | Response response

text \<open>
  The upstream API is the environment: the outcome of the \<open>n\<close>-th attempt that this process
  makes, for the URL and the query parameters sent.
\<close>

type_synonym upstream = "nat \<Rightarrow> string \<Rightarrow> params \<Rightarrow> outcome"

text \<open>
  \<^verbatim>\<open>Retry(total=3, backoff_factor=0.3, status_forcelist=[429, 500, 502, 503, 504],
  allowed_methods=frozenset(["GET"]))\<close>. The class is urllib3's and its code is not part of
  the repository; the definitions below follow its documented behaviour: \<open>total\<close> is the
  "total number of retries to allow" ("set to 0 to fail on the first retry"), each retry
  takes one off, and the budget is exhausted when the count falls below zero. The list of
  methods limits the retries on a status and on an error while reading; an error while
  connecting is retried for any method. A response with a \<^verbatim>\<open>Retry-After\<close> header and status
  413, 429 or 503 is retried as well while \<open>total\<close> is not zero.
\<close>

record retry =
  r_total :: int
  r_backoff_factor :: rat
  r_status_forcelist :: "int list"
  r_allowed_methods :: "string list"

definition retries :: retry where
  "retries = \<lparr>r_total = 3, r_backoff_factor = 3 / 10,
     r_status_forcelist = [429, 500, 502, 503, 504], r_allowed_methods = [''GET'']\<rparr>"

definition is_method_retryable :: "retry \<Rightarrow> string \<Rightarrow> bool" where
  "is_method_retryable r meth = (meth \<in> set (r_allowed_methods r))"

definition is_retry :: "retry \<Rightarrow> string \<Rightarrow> int \<Rightarrow> bool \<Rightarrow> bool" where
  "is_retry r meth status has_retry_after =
     (if \<not> is_method_retryable r meth then False
      else if r_status_forcelist r \<noteq> [] \<and> status \<in> set (r_status_forcelist r) then True
      else r_total r \<noteq> 0 \<and> has_retry_after \<and> status \<in> set [413, 429, 503])"

definition is_exhausted :: "retry \<Rightarrow> bool" where
  "is_exhausted r = (r_total r < 0)"

datatype cause =
    ConnCause string
  | ReadCause string
  | StatusCause int

text \<open>
  \<^verbatim>\<open>Retry.increment\<close>: a read error on a method that may not be retried is raised again at
  once; otherwise one retry is taken off, and an exhausted budget raises. The exception is
  given as the \<^verbatim>\<open>requests\<close> adapter hands it on.
\<close>

definition increment :: "retry \<Rightarrow> string \<Rightarrow> cause \<Rightarrow> exc + retry" where
  "increment r meth c =
     (case c of
        ReadCause m \<Rightarrow>
          if \<not> is_method_retryable r meth then Inl (ConnectionError m)
          else (let r' = r\<lparr>r_total := r_total r - 1\<rparr>
                in if is_exhausted r' then Inl (ConnectionError m) else Inr r')
      | ConnCause m \<Rightarrow>
          (let r' = r\<lparr>r_total := r_total r - 1\<rparr>
           in if is_exhausted r' then Inl (ConnectionError m) else Inr r')
      | StatusCause s \<Rightarrow>
          (let r' = r\<lparr>r_total := r_total r - 1\<rparr>
           in if is_exhausted r'
              then Inl (RetryError (''too many '' @ str_int s @ '' error responses''))
              else Inr r'))"

text \<open>
  The connection pool's \<^verbatim>\<open>urlopen\<close> with its retries: the result, and the number of attempts
  made so far. \<open>n\<close> counts the attempts made before this call.
\<close>

function urlopen ::
  "retry \<Rightarrow> string \<Rightarrow> upstream \<Rightarrow> nat \<Rightarrow> string \<Rightarrow> params \<Rightarrow> (exc + response) \<times> nat"
where
  "urlopen r meth up n u ps =
     (case up n u ps of
        ConnectFailure m \<Rightarrow>
          (case increment r meth (ConnCause m) of
             Inl e \<Rightarrow> (Inl e, Suc n)
           | Inr r' \<Rightarrow> urlopen r' meth up (Suc n) u ps)
      | ReadFailure m \<Rightarrow>
          (case increment r meth (ReadCause m) of
             Inl e \<Rightarrow> (Inl e, Suc n)
           | Inr r' \<Rightarrow> urlopen r' meth up (Suc n) u ps)
      | Response resp \<Rightarrow>
          if is_retry r meth (status_code resp) (retry_after resp)
          then (case increment r meth (StatusCause (status_code resp)) of
                  Inl e \<Rightarrow> (Inl e, Suc n)
                | Inr r' \<Rightarrow> urlopen r' meth up (Suc n) u ps)
          else (Inr resp, Suc n))"
  by pat_completeness auto
termination
  by (relation "measure (\<lambda>(r, meth, up, n, u, ps). nat (r_total r + 1))")
     (auto simp: increment_def is_exhausted_def Let_def split: if_splits)

declare urlopen.simps [simp del]

definition session_get :: "upstream \<Rightarrow> nat \<Rightarrow> string \<Rightarrow> params \<Rightarrow> (exc + response) \<times> nat" where
  "session_get up n u ps = urlopen retries ''GET'' up n u ps"

definition raise_for_status :: "response \<Rightarrow> exc + unit" where
  "raise_for_status resp =
     (if 400 \<le> status_code resp \<and> status_code resp < 500
      then Inl (HTTPError (str_int (status_code resp) @ '' Client Error: '' @ reason resp
                  @ '' for url: '' @ url resp))
      else if 500 \<le> status_code resp \<and> status_code resp < 600
      then Inl (HTTPError (str_int (status_code resp) @ '' Server Error: '' @ reason resp
                  @ '' for url: '' @ url resp))
      else Inr ())"

definition resp_json :: "response \<Rightarrow> exc + pyval" where
  "resp_json resp =
     (case json_body resp of
        None \<Rightarrow> Inl (ValueError ''Expecting value'')
      | Some j \<Rightarrow> Inr j)"

definition lstrip_slash :: "string \<Rightarrow> string" where
  "lstrip_slash path = dropWhile (\<lambda>c. c = CHR ''/'') path"

definition upstream_error :: "exc \<Rightarrow> int \<times> pyval" where
  "upstream_error e =
     (502, PDict [(''error'', PStr ''upstream_error''), (''detail'', PStr (str_exc e))])"

text \<open>
  The clause \<^verbatim>\<open>except requests.exceptions.RequestException\<close>: any other exception leaves
  the function.
\<close>

definition except_request :: "exc \<Rightarrow> exc + int \<times> pyval" where
  "except_request e = (if is_RequestException e then Inr (upstream_error e) else Inl e)"

text \<open>
  \<^verbatim>\<open>_forward_get\<close>, with the base URL \<^verbatim>\<open>OPEN_METEO_BASE\<close> as a parameter: the result (or the
  exception that leaves it) and the number of attempts made so far.
\<close>

definition forward_get ::
  "string \<Rightarrow> upstream \<Rightarrow> nat \<Rightarrow> string \<Rightarrow> params \<Rightarrow> (exc + int \<times> pyval) \<times> nat"
where
  "forward_get base up n path ps =
     (let u = base @ ''/'' @ lstrip_slash path
      in case session_get up n u ps of
           (Inl e, n') \<Rightarrow> (except_request e, n')
         | (Inr resp, n') \<Rightarrow>
             (case raise_for_status resp of
                Inl e \<Rightarrow> (except_request e, n')
              | Inr _ \<Rightarrow>
                  (case resp_json resp of
                     Inr j \<Rightarrow> (Inr (status_code resp, j), n')
                   | Inl e \<Rightarrow>
                       if is_ValueError e
                       then (Inr (status_code resp, PStr (resp_text resp)), n')
                       else (except_request e, n'))))"

section \<open>The response cache\<close>

text \<open>
  Modelled from the spec: the class \<^verbatim>\<open>TTLCache\<close> and the decorator \<^verbatim>\<open>cached\<close> belong to the
  package \<^verbatim>\<open>cachetools\<close>, whose code is not under \<^verbatim>\<open>src/\<close>; the source only constructs the
  cache (\<^verbatim>\<open>TTLCache(maxsize=CACHE_MAXSIZE, ttl=CACHE_TTL)\<close>) and decorates \<^verbatim>\<open>_cached_forward\<close>.
  The cache is a list of entries, the least recently used first, each with its key, its
  value and the time at which it expires (insertion time plus \<open>ttl\<close>). A lookup treats an
  entry whose time has come as absent; a store first drops the expired entries, then, for
  a new key, evicts from the front while the cache is full, and puts the entry last with
  a fresh expiry time. Every entry has size 1, so a cache with \<open>maxsize < 1\<close> refuses every
  store with \<^verbatim>\<open>ValueError\<close>. This is the behaviour that the documentation of the package
  describes, and one of the policies that the specification allows (least recently used).
\<close>

type_synonym entry = "string \<times> (int \<times> pyval) \<times> rat"

record ttl_cache =
  maxsize :: int
  ttl :: rat
  entries :: "entry list"

text \<open>Modelled from the spec: the empty cache with its capacity and its time-to-live.\<close>

definition TTLCache :: "int \<Rightarrow> rat \<Rightarrow> ttl_cache" where
  "TTLCache m t = \<lparr>maxsize = m, ttl = t, entries = []\<rparr>"

text \<open>
  Modelled from the spec: the entries whose time has come are dropped; the others keep
  their order.
\<close>

definition expire :: "ttl_cache \<Rightarrow> rat \<Rightarrow> ttl_cache" where
  "expire c time = c\<lparr>entries := filter (\<lambda>(k, v, e). time < e) (entries c)\<rparr>"

text \<open>Modelled from the spec: the entry of \<open>k\<close> becomes the most recently used.\<close>

definition move_to_end :: "string \<Rightarrow> entry list \<Rightarrow> entry list" where
  "move_to_end k es = filter (\<lambda>e. fst e \<noteq> k) es @ filter (\<lambda>e. fst e = k) es"

text \<open>
  Modelled from the spec: the lookup \<^verbatim>\<open>cache[k]\<close> at time \<open>time\<close>; \<open>None\<close> stands for \<^verbatim>\<open>KeyError\<close>.
  An entry that is found becomes the most recently used, and is absent all the same when
  its time has come.
\<close>

definition cache_getitem :: "ttl_cache \<Rightarrow> rat \<Rightarrow> string \<Rightarrow> (int \<times> pyval) option \<times> ttl_cache" where
  "cache_getitem c time k =
     (case map_of (entries c) k of
        None \<Rightarrow> (None, c)
      | Some (v, e) \<Rightarrow>
          (let c' = c\<lparr>entries := move_to_end k (entries c)\<rparr>
           in if time < e then (Some v, c') else (None, c')))"

text \<open>
  Modelled from the spec: eviction on a store, the loop
  \<^verbatim>\<open>while currsize + size > maxsize: popitem()\<close>, every size being 1; \<^verbatim>\<open>popitem\<close> on an empty
  cache raises \<^verbatim>\<open>KeyError\<close>.
\<close>

fun evict :: "int \<Rightarrow> entry list \<Rightarrow> exc + entry list" where
  "evict m [] = (if 1 > m then Inl (KeyError ''TTLCache is empty'') else Inr [])"
| "evict m (e # es) = (if int (length (e # es)) + 1 > m then evict m es else Inr (e # es))"

text \<open>Modelled from the spec: the store \<^verbatim>\<open>cache[k] = v\<close> at time \<open>time\<close>.\<close>

definition cache_setitem ::
  "ttl_cache \<Rightarrow> rat \<Rightarrow> string \<Rightarrow> int \<times> pyval \<Rightarrow> (exc + unit) \<times> ttl_cache"
where
  "cache_setitem c time k v =
     (let c1 = expire c time
      in if 1 > maxsize c1 then (Inl (ValueError ''value too large''), c1)
         else case (if k \<notin> set (map fst (entries c1)) then evict (maxsize c1) (entries c1)
                    else Inr (entries c1)) of
                Inl e \<Rightarrow> (Inl e, c1\<lparr>entries := []\<rparr>)
              | Inr es \<Rightarrow>
                  (Inr (), c1\<lparr>entries := filter (\<lambda>e. fst e \<noteq> k) es @ [(k, v, time + ttl c1)]\<rparr>))"

section \<open>The forwarding coordinator\<close>

text \<open>
  The state of the process: the cache, and the number of attempts made against the
  upstream API so far.
\<close>

record world =
  cache :: ttl_cache
  attempts :: nat

text \<open>
  \<^verbatim>\<open>_cached_forward\<close> under \<^verbatim>\<open>@cached(cache=cache, key=...)\<close>: look the key up at time \<open>now\<close>;
  on \<^verbatim>\<open>KeyError\<close> call \<^verbatim>\<open>_forward_get\<close> and store its result at time \<open>done\<close>, the time at
  which the fetch has returned, passing over a \<^verbatim>\<open>ValueError\<close> of the store. The body of the
  function is the call of \<^verbatim>\<open>_forward_get\<close>; the steps around it are the decorator's, which is
  not under \<^verbatim>\<open>src/\<close> either.
\<close>

definition cached_forward ::
  "string \<Rightarrow> upstream \<Rightarrow> world \<Rightarrow> rat \<Rightarrow> rat \<Rightarrow> string \<Rightarrow> params \<Rightarrow> (exc + int \<times> pyval) \<times> world"
where
  "cached_forward base up w now done path ps =
     (let k = cache_key path ps
      in case cache_getitem (cache w) now k of
           (Some v, c) \<Rightarrow> (Inr v, w\<lparr>cache := c\<rparr>)
         | (None, c) \<Rightarrow>
             (case forward_get base up (attempts w) path ps of
                (Inl e, n) \<Rightarrow> (Inl e, \<lparr>cache = c, attempts = n\<rparr>)
              | (Inr v, n) \<Rightarrow>
                  (case cache_setitem c done k v of
                     (Inr _, c') \<Rightarrow> (Inr v, \<lparr>cache = c', attempts = n\<rparr>)
                   | (Inl e, c') \<Rightarrow>
                       if is_ValueError e then (Inr v, \<lparr>cache = c', attempts = n\<rparr>)
                       else (Inl e, \<lparr>cache = c', attempts = n\<rparr>))))"

section \<open>The route /weather\<close>

text \<open>
  An HTTP response is a body and a status; \<^verbatim>\<open>jsonify\<close> is applied to dictionaries only.
\<close>

datatype body = JsonBody pyval | RawBody pyval

definition relay :: "int \<times> pyval \<Rightarrow> body \<times> int" where
  "relay r = (if is_dict (snd r) then JsonBody (snd r) else RawBody (snd r), fst r)"

definition missing_parameters :: "body \<times> int" where
  "missing_parameters =
     (JsonBody (PDict [(''error'', PStr ''missing_parameters''),
        (''detail'', PStr ''latitude and longitude required (lat/lon)'')]), 400)"

text \<open>
  The dictionary that \<^verbatim>\<open>weather_proxy\<close> forwards: \<^verbatim>\<open>dict(request.args)\<close>, then
  \<^verbatim>\<open>if "lat" in forward_params: forward_params["latitude"] = forward_params.pop("lat")\<close>
  and the same for \<^verbatim>\<open>lon\<close> and \<^verbatim>\<open>longitude\<close>.
\<close>

definition forward_params :: "params \<Rightarrow> params" where
  "forward_params args =
     (let fp = dict_of_args args;
          fp1 = (if dict_contains ''lat'' fp
                 then (case dict_pop ''lat'' fp of
                         (Some v, d) \<Rightarrow> dict_set ''latitude'' v d
                       | (None, d) \<Rightarrow> d)
                 else fp)
      in if dict_contains ''lon'' fp1
         then (case dict_pop ''lon'' fp1 of
                 (Some v, d) \<Rightarrow> dict_set ''longitude'' v d
               | (None, d) \<Rightarrow> d)
         else fp1)"

definition weather_proxy ::
  "string \<Rightarrow> upstream \<Rightarrow> world \<Rightarrow> rat \<Rightarrow> rat \<Rightarrow> params \<Rightarrow> (exc + body \<times> int) \<times> world"
where
  "weather_proxy base up w now done args =
     (let lat = py_or (args_get args ''latitude'') (args_get args ''lat'');
          lon = py_or (py_or (args_get args ''longitude'') (args_get args ''lon''))
                  (args_get args ''long'')
      in if \<not> truthy lat \<or> \<not> truthy lon then (Inr missing_parameters, w)
         else case cached_forward base up w now done ''forecast'' (forward_params args) of
                (Inl e, w') \<Rightarrow> (Inl e, w')
              | (Inr r, w') \<Rightarrow> (Inr (relay r), w'))"

section \<open>Sequences of cache operations\<close>

text \<open>
  The cache is only reached through lookups and stores. A history of the cache is a list
  of such operations, each at its time; \<open>run\<close> applies them in order.
\<close>

datatype cache_op = Lookup rat string | Store rat string "int \<times> pyval"

fun apply_op :: "ttl_cache \<Rightarrow> cache_op \<Rightarrow> ttl_cache" where
  "apply_op c (Lookup t k) = snd (cache_getitem c t k)"
| "apply_op c (Store t k v) = snd (cache_setitem c t k v)"

definition run :: "ttl_cache \<Rightarrow> cache_op list \<Rightarrow> ttl_cache" where
  "run c ops = foldl apply_op c ops"

fun stores_key :: "string \<Rightarrow> cache_op \<Rightarrow> bool" where
  "stores_key k (Store t k' v) = (k' = k)"
| "stores_key k (Lookup t k') = False"

text \<open>The size bound and the uniqueness of keys, as a predicate on a cache.\<close>

definition cache_inv :: "ttl_cache \<Rightarrow> bool" where
  "cache_inv c = (int (length (entries c)) \<le> maxsize c \<and> distinct (map fst (entries c)))"

text \<open>Every entry stored under \<open>k\<close> expires at \<open>deadline\<close> or before.\<close>

definition expires_by :: "string \<Rightarrow> rat \<Rightarrow> ttl_cache \<Rightarrow> bool" where
  "expires_by k deadline c = (\<forall>x \<in> set (entries c). fst x = k \<longrightarrow> snd (snd x) \<le> deadline)"

section \<open>Upstream behaviours\<close>

text \<open>
  The failures that the specification calls transient: a network failure, or a response
  whose status is in the list given to \<^verbatim>\<open>Retry\<close>.
\<close>

fun transient :: "outcome \<Rightarrow> bool" where
  "transient (ConnectFailure m) = True"
| "transient (ReadFailure m) = True"
| "transient (Response resp) = (status_code resp \<in> set (r_status_forcelist retries))"

text \<open>
  Three upstream behaviours used as test inputs: 503 at every attempt; 503 at the first
  three attempts and \<^verbatim>\<open>200 OK\<close> from the fourth on; a connection refused at every attempt.
\<close>

definition busy :: response where
  "busy = \<lparr>status_code = 503, reason = ''Service Unavailable'', url = [], resp_text = [],
     json_body = None, retry_after = False\<rparr>"

definition always_busy :: upstream where
  "always_busy n u ps = Response busy"

definition busy_thrice :: upstream where
  "busy_thrice n u ps =
     (if n < 3 then Response busy
      else Response \<lparr>status_code = 200, reason = ''OK'', url = u, resp_text = ''OK'',
             json_body = None, retry_after = False\<rparr>)"

definition always_refused :: upstream where
  "always_refused n u ps = ConnectFailure ''Connection refused''"

section \<open>Reading a key back\<close>

text \<open>
  A scanner for the text of a tuple of pairs of strings: it is outside any string, inside a
  string in single or in double quotes, or just after a backslash inside such a string.
  Outside a string only brackets, commas, blanks and opening quotes may occur.
\<close>

datatype lex = Out | InS | InD | EscS | EscD

fun step :: "lex \<Rightarrow> char \<Rightarrow> lex option" where
  "step Out c =
     (if c = CHR 0x27 then Some InS
      else if c = CHR 0x22 then Some InD
      else if c \<in> set ''(), '' then Some Out
      else None)"
| "step InS c = (if c = CHR 0x27 then Some Out else if c = CHR 0x5C then Some EscS else Some InS)"
| "step InD c = (if c = CHR 0x22 then Some Out else if c = CHR 0x5C then Some EscD else Some InD)"
| "step EscS c = Some InS"
| "step EscD c = Some InD"

fun scan :: "lex \<Rightarrow> string \<Rightarrow> lex option" where
  "scan s [] = Some s"
| "scan s (c # cs) = (case step s c of None \<Rightarrow> None | Some s' \<Rightarrow> scan s' cs)"

text \<open>
  Two scanners that read the same text from states related by \<open>apart\<close> are never both
  outside a string again.
\<close>

fun apart :: "lex \<Rightarrow> lex \<Rightarrow> bool" where
  "apart InS Out = True"
| "apart InD Out = True"
| "apart Out InS = True"
| "apart Out InD = True"
| "apart InS InD = True"
| "apart InD InS = True"
| "apart EscS EscD = True"
| "apart EscD EscS = True"
| "apart _ _ = False"

text \<open>The state inside a string that was opened with the quote \<open>q\<close>.\<close>

definition inside :: "char \<Rightarrow> lex" where
  "inside q = (if q = CHR 0x27 then InS else InD)"

section \<open>Properties of the cache key\<close>

text \<open>
  The text of a character determines the character, and tells where it ends: no text of
  a character is the beginning of the text of another one.
\<close>

lemma hex_digit_inj: "hex_digit a = hex_digit b \<Longrightarrow> a mod 16 = b mod 16"
proof -
  have d: "distinct ''0123456789abcdef''" by simp
  have l: "a mod 16 < length ''0123456789abcdef''" "b mod 16 < length ''0123456789abcdef''"
    by simp_all
  assume "hex_digit a = hex_digit b"
  then show ?thesis
    unfolding hex_digit_def using nth_eq_iff_index_eq [OF d l] by simp
qed

lemma hex_digit_mem: "hex_digit a \<in> set ''0123456789abcdef''"
  unfolding hex_digit_def by (rule nth_mem) simp

lemma hex_digit_plain:
  "hex_digit a \<noteq> CHR 0x27" "hex_digit a \<noteq> CHR 0x22" "hex_digit a \<noteq> CHR 0x5C"
  using hex_digit_mem [of a] by auto

lemma hex_pair_inj:
  assumes "hex_digit (of_char c div 16) = hex_digit (of_char c' div 16)"
    and "hex_digit (of_char c) = hex_digit (of_char c')"
  shows "c = c'"
proof -
  have b: "(of_char c :: nat) < 256" "(of_char c' :: nat) < 256"
    by (simp_all add: of_char_def)
  from hex_digit_inj [OF assms(1)] b
  have "(of_char c :: nat) div 16 = of_char c' div 16" by simp
  moreover from hex_digit_inj [OF assms(2)]
  have "(of_char c :: nat) mod 16 = of_char c' mod 16" .
  ultimately have "(of_char c :: nat) = of_char c'"
    by (metis div_mult_mod_eq)
  then show ?thesis by simp
qed

lemma repr_char_prefix_code:
  assumes "q = CHR 0x27 \<or> q = CHR 0x22"
    and "repr_char q c @ r = repr_char q c' @ r'"
  shows "c = c' \<and> r = r'"
  using assms
  by (auto simp: repr_char_def split: if_splits dest: hex_pair_inj)


lemma repr_quote_cases: "repr_quote s = CHR 0x27 \<or> repr_quote s = CHR 0x22"
  by (simp add: repr_quote_def)

lemma repr_char_not_quote:
  "q = CHR 0x27 \<or> q = CHR 0x22 \<Longrightarrow> \<exists>x xs. repr_char q c = x # xs \<and> x \<noteq> q"
  by (auto simp: repr_char_def)

lemma repr_body_unique:
  assumes q: "q = CHR 0x27 \<or> q = CHR 0x22"
  shows "concat (map (repr_char q) s) @ q # r = concat (map (repr_char q) s') @ q # r' \<Longrightarrow>
         s = s' \<and> r = r'"
proof (induction s arbitrary: s')
  case Nil
  show ?case
  proof (cases s')
    case Nil
    with Nil.prems show ?thesis by simp
  next
    case (Cons c' t')
    from repr_char_not_quote [OF q, of c'] obtain x xs
      where "repr_char q c' = x # xs" "x \<noteq> q" by blast
    with Nil.prems Cons show ?thesis by simp
  qed
next
  case (Cons c t)
  show ?case
  proof (cases s')
    case Nil
    from repr_char_not_quote [OF q, of c] obtain x xs
      where "repr_char q c = x # xs" "x \<noteq> q" by blast
    with Cons.prems Nil show ?thesis by simp
  next
    case (Cons c' t')
    with Cons.prems
    have "repr_char q c @ (concat (map (repr_char q) t) @ q # r)
        = repr_char q c' @ (concat (map (repr_char q) t') @ q # r')"
      by simp
    from repr_char_prefix_code [OF q this]
    have "c = c'" and "concat (map (repr_char q) t) @ q # r = concat (map (repr_char q) t') @ q # r'"
      by simp_all
    with Cons.IH [of t'] Cons show ?thesis by simp
  qed
qed

text \<open>
  Hence the text of a string, of a pair and of a tuple can be read back in one way only.
\<close>

lemma repr_str_unique:
  assumes "repr_str s @ r = repr_str s' @ r'"
  shows "s = s' \<and> r = r'"
proof -
  from assms have q: "repr_quote s = repr_quote s'"
    by (simp add: repr_str_def Let_def)
  with assms have "concat (map (repr_char (repr_quote s)) s) @ repr_quote s # r
      = concat (map (repr_char (repr_quote s)) s') @ repr_quote s # r'"
    by (simp add: repr_str_def Let_def)
  with repr_body_unique [OF repr_quote_cases] show ?thesis by blast
qed

lemma repr_pair_unique:
  assumes "repr_pair kv @ r = repr_pair kv' @ r'"
  shows "kv = kv' \<and> r = r'"
proof -
  from assms have "repr_str (fst kv) @ ('', '' @ repr_str (snd kv) @ '')'' @ r)
      = repr_str (fst kv') @ ('', '' @ repr_str (snd kv') @ '')'' @ r')"
    by (simp add: repr_pair_def)
  from repr_str_unique [OF this]
  have k: "fst kv = fst kv'"
    and "repr_str (snd kv) @ ('')'' @ r) = repr_str (snd kv') @ ('')'' @ r')"
    by simp_all
  from repr_str_unique [OF this(2)] k show ?thesis
    by (simp add: prod_eq_iff)
qed

lemma repr_pair_head: "\<exists>xs. repr_pair kv = CHR ''('' # xs"
  by (simp add: repr_pair_def)

lemma repr_elems_unique:
  "xs \<noteq> [] \<Longrightarrow> ys \<noteq> [] \<Longrightarrow> repr_elems xs @ '')'' @ r = repr_elems ys @ '')'' @ r' \<Longrightarrow>
   xs = ys \<and> r = r'"
proof (induction xs arbitrary: ys)
  case Nil
  then show ?case by simp
next
  case (Cons x xs)
  then obtain y ys' where ys: "ys = y # ys'" by (cases ys) auto
  have e: "repr_elems (z # zs) = repr_pair z @ (if zs = [] then [] else '', '' @ repr_elems zs)" for z zs
    by (cases zs) simp_all
  from Cons.prems(3) ys
  have "repr_pair x @ ((if xs = [] then [] else '', '' @ repr_elems xs) @ '')'' @ r)
      = repr_pair y @ ((if ys' = [] then [] else '', '' @ repr_elems ys') @ '')'' @ r')"
    by (simp add: e)
  from repr_pair_unique [OF this]
  have xy: "x = y"
    and rest: "(if xs = [] then [] else '', '' @ repr_elems xs) @ '')'' @ r
      = (if ys' = [] then [] else '', '' @ repr_elems ys') @ '')'' @ r'"
    by simp_all
  show ?case
  proof (cases "xs = []")
    case True
    with rest have "ys' = []" by (auto split: if_splits)
    with True rest xy ys show ?thesis by simp
  next
    case False
    with rest have ne: "ys' \<noteq> []" by (auto split: if_splits)
    with False rest have "repr_elems xs @ '')'' @ r = repr_elems ys' @ '')'' @ r'" by simp
    from Cons.IH [OF False ne this] xy ys show ?thesis by simp
  qed
qed

lemma repr_tuple_alt:
  "repr_tuple items =
     (if items = [] then ''()''
      else ''('' @ repr_elems items @ (if length items = 1 then '',)'' else '')''))"
proof (cases items)
  case Nil
  then show ?thesis by (simp add: repr_tuple_def)
next
  case (Cons x xs)
  then show ?thesis by (cases xs) (simp_all add: repr_tuple_def)
qed


lemma repr_tuple_inj:
  assumes "repr_tuple xs = repr_tuple ys"
  shows "xs = ys"
proof -
  have empty: False if "zs \<noteq> []" "repr_tuple [] = repr_tuple zs" for zs
  proof -
    from that(1) obtain z zs' where "zs = z # zs'" by (cases zs) auto
    moreover obtain t where "repr_pair z = CHR ''('' # t"
      using repr_pair_head [of z] by blast
    ultimately show False
      using that(2) by (cases zs') (simp_all add: repr_tuple_def)
  qed
  have mixed: False
    if "repr_pair x @ '',)'' = repr_pair y @ '', '' @ repr_elems (z # zs) @ '')''" for x y z zs
    using repr_pair_unique [OF that] by simp
  show ?thesis
  proof (cases xs)
    case Nil
    with assms empty [of ys] show ?thesis by auto
  next
    case xs: (Cons x xs')
    show ?thesis
    proof (cases ys)
      case Nil
      with assms empty [of xs] xs show ?thesis by auto
    next
      case ys: (Cons y ys')
      show ?thesis
      proof (cases xs')
        case Nil
        show ?thesis
        proof (cases ys')
          case ys': Nil
          from assms xs ys Nil ys' have "repr_pair x @ '',)'' = repr_pair y @ '',)''"
            by (simp add: repr_tuple_def)
          from repr_pair_unique [OF this] xs ys Nil ys' show ?thesis by simp
        next
          case ys': (Cons z zs)
          from assms xs ys Nil ys'
          have "repr_pair x @ '',)'' = repr_pair y @ '', '' @ repr_elems (z # zs) @ '')''"
            by (simp add: repr_tuple_def)
          with mixed show ?thesis by blast
        qed
      next
        case xs': (Cons z zs)
        show ?thesis
        proof (cases ys')
          case Nil
          from assms xs ys Nil xs'
          have "repr_pair y @ '',)'' = repr_pair x @ '', '' @ repr_elems (z # zs) @ '')''"
            by (simp add: repr_tuple_def)
          with mixed show ?thesis by blast
        next
          case ys': (Cons z' zs')
          from assms xs ys xs' ys'
          have "repr_elems xs @ '')'' @ [] = repr_elems ys @ '')'' @ []"
            by (simp add: repr_tuple_def)
          moreover have "xs \<noteq> []" "ys \<noteq> []" using xs ys by simp_all
          ultimately show ?thesis
            using repr_elems_unique [of xs ys "[]" "[]"] by blast
        qed
      qed
    qed
  qed
qed

text \<open>
  The scanner reads the text of a tuple from outside a string back to outside a string.
\<close>

lemma scan_append:
  "scan s (a @ b) = (case scan s a of None \<Rightarrow> None | Some s' \<Rightarrow> scan s' b)"
  by (induction a arbitrary: s) (auto split: option.splits)

lemma scan_repr_char:
  "q = CHR 0x27 \<or> q = CHR 0x22 \<Longrightarrow> scan (inside q) (repr_char q c) = Some (inside q)"
  by (auto simp: repr_char_def inside_def hex_digit_plain)

lemma scan_repr_body:
  "q = CHR 0x27 \<or> q = CHR 0x22 \<Longrightarrow>
   scan (inside q) (concat (map (repr_char q) s)) = Some (inside q)"
  by (induction s) (simp_all add: scan_append scan_repr_char)

lemma scan_repr_str: "scan Out (repr_str s) = Some Out"
proof -
  have "scan Out (repr_quote s # concat (map (repr_char (repr_quote s)) s) @ [repr_quote s])
      = Some Out"
    using repr_quote_cases [of s] scan_repr_body [of "repr_quote s" s]
    by (auto simp: scan_append inside_def)
  then show ?thesis
    by (simp add: repr_str_def Let_def)
qed

lemma scan_repr_pair: "scan Out (repr_pair kv) = Some Out"
  by (simp add: repr_pair_def scan_append scan_repr_str)

lemma scan_repr_elems: "scan Out (repr_elems xs) = Some Out"
  by (induction xs rule: repr_elems.induct) (simp_all add: scan_append scan_repr_pair)

lemma scan_repr_tuple: "scan Out (repr_tuple xs) = Some Out"
  by (simp add: repr_tuple_alt scan_append scan_repr_elems)

text \<open>
  A bar can only stand inside a string. If the text of a tuple continued, after a bar,
  with the whole text of another tuple, one scanner would start that text inside a string
  and another one outside; the two never meet in a common state, yet both must end outside.
\<close>

lemma apart_step:
  "apart s1 s2 \<Longrightarrow> step s1 c = Some t1 \<Longrightarrow> step s2 c = Some t2 \<Longrightarrow> apart t1 t2"
  by (cases s1; cases s2) (auto split: if_splits)

lemma apart_scan:
  "apart s1 s2 \<Longrightarrow> scan s1 cs = Some t1 \<Longrightarrow> scan s2 cs = Some t2 \<Longrightarrow> apart t1 t2"
proof (induction cs arbitrary: s1 s2)
  case Nil
  then show ?case by simp
next
  case (Cons c cs)
  from Cons.prems(2) obtain u1 where u1: "step s1 c = Some u1" "scan u1 cs = Some t1"
    by (auto split: option.splits)
  from Cons.prems(3) obtain u2 where u2: "step s2 c = Some u2" "scan u2 cs = Some t2"
    by (auto split: option.splits)
  from apart_step [OF Cons.prems(1) u1(1) u2(1)] u1(2) u2(2) show ?case
    by (rule Cons.IH)
qed

lemma no_bar_inside:
  assumes "scan Out (x @ CHR ''|'' # b) = Some Out" and "scan Out b = Some Out"
  shows False
proof -
  from assms(1) obtain s s' where s: "scan Out x = Some s" "step s CHR ''|'' = Some s'"
    "scan s' b = Some Out"
    by (auto simp: scan_append split: option.splits)
  from s(2) have "apart s' Out"
    by (cases s) (auto split: if_splits)
  from apart_scan [OF this s(3) assms(2)] show False by simp
qed

text \<open>
  Equal keys come from equal paths and equal sorted lists of pairs.
\<close>

lemma cache_key_inj:
  assumes "cache_key p1 ps1 = cache_key p2 ps2"
  shows "p1 = p2 \<and> sorted_items ps1 = sorted_items ps2"
proof -
  let ?r1 = "repr_tuple (sorted_items ps1)" and ?r2 = "repr_tuple (sorted_items ps2)"
  from assms have eq: "p1 @ CHR ''|'' # ?r1 = p2 @ CHR ''|'' # ?r2"
    by (simp add: cache_key_def)
  then obtain us where us:
    "p1 = p2 @ us \<and> us @ CHR ''|'' # ?r1 = CHR ''|'' # ?r2 \<or>
     p1 @ us = p2 \<and> CHR ''|'' # ?r1 = us @ CHR ''|'' # ?r2"
    by (auto simp: append_eq_append_conv2)
  have "us = []"
  proof (rule ccontr)
    assume "us \<noteq> []"
    then obtain c x where c: "us = c # x" by (cases us) auto
    from us show False
    proof
      assume "p1 = p2 @ us \<and> us @ CHR ''|'' # ?r1 = CHR ''|'' # ?r2"
      with c have "?r2 = x @ CHR ''|'' # ?r1" by simp
      with no_bar_inside [of x ?r1] scan_repr_tuple [of "sorted_items ps2"]
        scan_repr_tuple [of "sorted_items ps1"]
      show False by simp
    next
      assume "p1 @ us = p2 \<and> CHR ''|'' # ?r1 = us @ CHR ''|'' # ?r2"
      with c have "?r1 = x @ CHR ''|'' # ?r2" by simp
      with no_bar_inside [of x ?r2] scan_repr_tuple [of "sorted_items ps2"]
        scan_repr_tuple [of "sorted_items ps1"]
      show False by simp
    qed
  qed
  with us have "p1 = p2" and "?r1 = ?r2" by auto
  with repr_tuple_inj show ?thesis by blast
qed

lemma sorted_items_eq_iff:
  assumes "distinct (map fst ps1)" and "distinct (map fst ps2)"
  shows "sorted_items ps1 = sorted_items ps2 \<longleftrightarrow> set ps1 = set ps2"
proof
  assume "sorted_items ps1 = sorted_items ps2"
  then have "set (sort ps1) = set (sort ps2)"
    by (simp add: sorted_items_def)
  then show "set ps1 = set ps2" by simp
next
  assume eq: "set ps1 = set ps2"
  from assms have "distinct ps1" "distinct ps2"
    by (simp_all add: distinct_map)
  with eq have "sort ps1 = sort ps2"
    by (intro sorted_distinct_set_unique) simp_all
  then show "sorted_items ps1 = sorted_items ps2"
    by (simp add: sorted_items_def)
qed

text \<open>
  Claim C2. For two dictionaries of parameters (each name once), the keys of
  \<open>(p1, ps1)\<close> and \<open>(p2, ps2)\<close> are equal exactly when the paths are equal and the dictionaries
  hold the same pairs: the order of insertion plays no part, and a different path or a
  different pair gives a different key.
\<close>

theorem cache_key_eq_iff:
  assumes "distinct (map fst ps1)" and "distinct (map fst ps2)"
  shows "cache_key p1 ps1 = cache_key p2 ps2 \<longleftrightarrow> p1 = p2 \<and> set ps1 = set ps2"
proof
  assume "cache_key p1 ps1 = cache_key p2 ps2"
  then have "p1 = p2" and "sorted_items ps1 = sorted_items ps2"
    using cache_key_inj by blast+
  with sorted_items_eq_iff [OF assms] show "p1 = p2 \<and> set ps1 = set ps2"
    by simp
next
  assume "p1 = p2 \<and> set ps1 = set ps2"
  with sorted_items_eq_iff [OF assms] show "cache_key p1 ps1 = cache_key p2 ps2"
    by (simp add: cache_key_def)
qed

text \<open>
  The same two pairs in both orders give one key; another value, or another path, gives
  another key.
\<close>

theorem cache_key_eq_iff_witness:
  "cache_key ''forecast'' [(''latitude'', ''10''), (''longitude'', ''20'')]
     = cache_key ''forecast'' [(''longitude'', ''20''), (''latitude'', ''10'')] \<and>
   cache_key ''forecast'' [(''latitude'', ''10''), (''longitude'', ''20'')]
     \<noteq> cache_key ''forecast'' [(''latitude'', ''10''), (''longitude'', ''21'')] \<and>
   cache_key ''forecast'' [(''latitude'', ''10''), (''longitude'', ''20'')]
     \<noteq> cache_key ''archive'' [(''latitude'', ''10''), (''longitude'', ''20'')]"
proof -
  let ?a = "[(''latitude'', ''10''), (''longitude'', ''20'')]"
  let ?b = "[(''longitude'', ''20''), (''latitude'', ''10'')]"
  let ?c = "[(''latitude'', ''10''), (''longitude'', ''21'')]"
  have d: "distinct (map fst ?a)" "distinct (map fst ?b)" "distinct (map fst ?c)"
    by simp_all
  have ab: "set ?a = set ?b"
    by (simp add: insert_commute)
  have "(''longitude'', ''21'') \<in> set ?c" and "(''longitude'', ''21'') \<notin> set ?a"
    by simp_all
  then have ac: "set ?a \<noteq> set ?c"
    by metis
  have p: "''forecast'' \<noteq> ''archive''"
    by simp
  from cache_key_eq_iff [OF d(1) d(2), of "''forecast''" "''forecast''"] ab
  have 1: "cache_key ''forecast'' ?a = cache_key ''forecast'' ?b" by (simp only: simp_thms)
  from cache_key_eq_iff [OF d(1) d(3), of "''forecast''" "''forecast''"] ac
  have 2: "cache_key ''forecast'' ?a \<noteq> cache_key ''forecast'' ?c" by (simp only: simp_thms)
  from cache_key_eq_iff [OF d(1) d(1), of "''forecast''" "''archive''"] p
  have 3: "cache_key ''forecast'' ?a \<noteq> cache_key ''archive'' ?a" by (simp only: simp_thms)
  from 1 2 3 show ?thesis by (intro conjI)
qed

section \<open>Properties of the upstream client\<close>

lemma increment_total:
  "increment r meth c = Inr r' \<Longrightarrow> r_total r' = r_total r - 1 \<and> 0 \<le> r_total r'"
  by (auto simp: increment_def is_exhausted_def Let_def split: cause.splits if_splits)

lemma increment_request_exception:
  "increment r meth c = Inl e \<Longrightarrow> is_RequestException e"
  by (auto simp: increment_def Let_def split: cause.splits if_splits)

text \<open>Whatever the pool raises is a \<^verbatim>\<open>RequestException\<close>.\<close>

lemma urlopen_request_exception:
  "fst (urlopen r meth up n u ps) = Inl e \<Longrightarrow> is_RequestException e"
proof (induction r meth up n u ps rule: urlopen.induct)
  case (1 r meth up n u ps)
  show ?case
  proof (cases "up n u ps")
    case (ConnectFailure m)
    with "1.prems" "1.IH"(1) show ?thesis
      by (subst (asm) urlopen.simps)
         (auto dest: increment_request_exception split: sum.splits)
  next
    case (ReadFailure m)
    with "1.prems" "1.IH"(2) show ?thesis
      by (subst (asm) urlopen.simps)
         (auto dest: increment_request_exception split: sum.splits)
  next
    case (Response resp)
    with "1.prems" "1.IH"(3) show ?thesis
      by (subst (asm) urlopen.simps)
         (auto dest: increment_request_exception split: sum.splits if_splits)
  qed
qed

lemma is_retry_success:
  "200 \<le> s \<Longrightarrow> s < 300 \<Longrightarrow> \<not> is_retry retries ''GET'' s ra"
  by (auto simp: is_retry_def retries_def is_method_retryable_def)

text \<open>
  \<^verbatim>\<open>_forward_get\<close> by cases on what the session returns: no exception leaves it.
\<close>

lemma forward_get_cases:
  "forward_get base up n path ps =
     (case session_get up n (base @ ''/'' @ lstrip_slash path) ps of
        (Inl e, n') \<Rightarrow> (Inr (upstream_error e), n')
      | (Inr resp, n') \<Rightarrow>
          (case raise_for_status resp of
             Inl e \<Rightarrow> (Inr (upstream_error e), n')
           | Inr _ \<Rightarrow>
               (case json_body resp of
                  Some j \<Rightarrow> (Inr (status_code resp, j), n')
                | None \<Rightarrow> (Inr (status_code resp, PStr (resp_text resp)), n'))))"
proof (cases "session_get up n (base @ ''/'' @ lstrip_slash path) ps")
  case (Pair x n')
  show ?thesis
  proof (cases x)
    case (Inl e)
    with Pair have "fst (urlopen retries ''GET'' up n (base @ ''/'' @ lstrip_slash path) ps) = Inl e"
      by (simp add: session_get_def)
    then have "is_RequestException e"
      by (rule urlopen_request_exception)
    with Pair Inl show ?thesis
      by (simp add: forward_get_def except_request_def)
  next
    case (Inr resp)
    with Pair show ?thesis
      by (auto simp: forward_get_def raise_for_status_def resp_json_def except_request_def
          split: option.splits)
  qed
qed

text \<open>
  Claim C10. A successful response (status 2xx) whose body does not parse as JSON comes
  back as the raw text with the status of the response: whenever the session returns such
  a response, also after retries, and in particular at once when it is the answer to the
  first attempt. The call does not fail because the body is not JSON.
\<close>

theorem forward_get_raw_text:
  assumes "200 \<le> status_code resp" and "status_code resp < 300"
    and "json_body resp = None"
  shows "(fst (session_get up n (base @ ''/'' @ lstrip_slash path) ps) = Inr resp \<longrightarrow>
            fst (forward_get base up n path ps) = Inr (status_code resp, PStr (resp_text resp))) \<and>
         (up n (base @ ''/'' @ lstrip_slash path) ps = Response resp \<longrightarrow>
            forward_get base up n path ps
              = (Inr (status_code resp, PStr (resp_text resp)), Suc n))"
proof (intro conjI impI)
  assume "fst (session_get up n (base @ ''/'' @ lstrip_slash path) ps) = Inr resp"
  with assms show "fst (forward_get base up n path ps)
      = Inr (status_code resp, PStr (resp_text resp))"
    by (auto simp: forward_get_cases raise_for_status_def split: prod.splits)
next
  assume "up n (base @ ''/'' @ lstrip_slash path) ps = Response resp"
  with assms(1,2)
  have "session_get up n (base @ ''/'' @ lstrip_slash path) ps = (Inr resp, Suc n)"
    unfolding session_get_def
    by (subst urlopen.simps) (simp add: is_retry_success)
  with assms show "forward_get base up n path ps
      = (Inr (status_code resp, PStr (resp_text resp)), Suc n)"
    by (simp add: forward_get_cases raise_for_status_def)
qed

text \<open>
  The scenario of the specification, a body \<^verbatim>\<open>OK\<close> with status 200; and the same answer
  after 503 at three attempts.
\<close>

theorem forward_get_raw_text_witness:
  "forward_get ''https://api.open-meteo.com/v1''
     (\<lambda>n u ps. Response \<lparr>status_code = 200, reason = ''OK'', url = u, resp_text = ''OK'',
        json_body = None, retry_after = False\<rparr>) 0 ''forecast'' []
   = (Inr (200, PStr ''OK''), Suc 0) \<and>
   fst (forward_get ''https://api.open-meteo.com/v1'' busy_thrice 0 ''forecast'' [])
   = Inr (200, PStr ''OK'')"
proof -
  let ?u = "''https://api.open-meteo.com/v1'' @ ''/'' @ lstrip_slash ''forecast''"
  let ?r = "\<lparr>status_code = 200, reason = ''OK'', url = ?u,
      resp_text = ''OK'', json_body = None, retry_after = False\<rparr>"
  have s: "fst (session_get busy_thrice 0 ?u []) = Inr ?r"
    by (simp add: session_get_def urlopen.simps busy_thrice_def busy_def is_retry_def
        retries_def is_method_retryable_def increment_def is_exhausted_def)
  from forward_get_raw_text [of ?r
    "\<lambda>n u ps. Response \<lparr>status_code = 200, reason = ''OK'', url = u, resp_text = ''OK'',
        json_body = None, retry_after = False\<rparr>"
    0 "''https://api.open-meteo.com/v1''" "''forecast''" "[]"]
  have 1: "forward_get ''https://api.open-meteo.com/v1''
     (\<lambda>n u ps. Response \<lparr>status_code = 200, reason = ''OK'', url = u, resp_text = ''OK'',
        json_body = None, retry_after = False\<rparr>) 0 ''forecast'' []
   = (Inr (200, PStr ''OK''), Suc 0)"
    by simp
  from forward_get_raw_text [of ?r busy_thrice 0 "''https://api.open-meteo.com/v1''"
      "''forecast''" "[]"] s
  have 2: "fst (forward_get ''https://api.open-meteo.com/v1'' busy_thrice 0 ''forecast'' [])
   = Inr (200, PStr ''OK'')"
    by simp
  from 1 2 show ?thesis by (intro conjI)
qed





section \<open>Properties of the retry policy\<close>

text \<open>
  The number of attempts of one call: at least one, at most one more than the retries
  allowed.
\<close>

lemma urlopen_attempts_lower: "n < snd (urlopen r meth up n u ps)"
proof (induction r meth up n u ps rule: urlopen.induct)
  case (1 r meth up n u ps)
  show ?case
  proof (cases "up n u ps")
    case (ConnectFailure m)
    with "1.IH"(1) show ?thesis
      by (subst urlopen.simps) (auto split: sum.splits intro: Suc_lessD)
  next
    case (ReadFailure m)
    with "1.IH"(2) show ?thesis
      by (subst urlopen.simps) (auto split: sum.splits intro: Suc_lessD)
  next
    case (Response resp)
    with "1.IH"(3) show ?thesis
      by (subst urlopen.simps) (auto split: sum.splits intro: Suc_lessD)
  qed
qed

lemma urlopen_attempts_upper: "snd (urlopen r meth up n u ps) \<le> n + 1 + nat (r_total r)"
proof (induction r meth up n u ps rule: urlopen.induct)
  case (1 r meth up n u ps)
  have step: "snd (urlopen r' meth up (Suc n) u ps) \<le> n + 1 + nat (r_total r)"
    if "increment r meth c = Inr r'"
      and "snd (urlopen r' meth up (Suc n) u ps) \<le> Suc n + 1 + nat (r_total r')" for c r'
    using increment_total [OF that(1)] that(2) by linarith
  show ?case
  proof (cases "up n u ps")
    case (ConnectFailure m)
    with "1.IH"(1) step show ?thesis
      by (subst urlopen.simps) (auto split: sum.splits)
  next
    case (ReadFailure m)
    with "1.IH"(2) step show ?thesis
      by (subst urlopen.simps) (auto split: sum.splits)
  next
    case (Response resp)
    with "1.IH"(3) step show ?thesis
      by (subst urlopen.simps) (auto split: sum.splits)
  qed
qed

text \<open>
  As long as retries are left, a transient failure of a method that may be retried leads
  to another attempt.
\<close>

lemma urlopen_retries_transient:
  "\<forall>i < k. transient (up (n + i) u ps) \<Longrightarrow> int k \<le> r_total r \<Longrightarrow>
   r_status_forcelist r = r_status_forcelist retries \<Longrightarrow> is_method_retryable r meth \<Longrightarrow>
   n + k < snd (urlopen r meth up n u ps)"
proof (induction k arbitrary: r n)
  case 0
  then show ?case by (simp add: urlopen_attempts_lower)
next
  case (Suc k)
  let ?r = "r\<lparr>r_total := r_total r - 1\<rparr>"
  have inc: "increment r meth c = Inr ?r" for c
    using Suc.prems(2,4) by (cases c) (simp_all add: increment_def is_exhausted_def)
  have tr: "transient (up n u ps)"
    using Suc.prems(1) [rule_format, of 0] by simp
  have "\<forall>i < k. transient (up (Suc n + i) u ps)"
    using Suc.prems(1) by (metis Suc_less_eq add_Suc_shift)
  then have IH: "Suc n + k < snd (urlopen ?r meth up (Suc n) u ps)"
    using Suc.prems(2-4) by (intro Suc.IH) (simp_all add: is_method_retryable_def)
  have "urlopen r meth up n u ps = urlopen ?r meth up (Suc n) u ps"
  proof (cases "up n u ps")
    case (ConnectFailure m)
    then show ?thesis by (subst urlopen.simps) (simp add: inc)
  next
    case (ReadFailure m)
    then show ?thesis by (subst urlopen.simps) (simp add: inc)
  next
    case (Response resp)
    with tr Suc.prems(3,4) have "is_retry r meth (status_code resp) (retry_after resp)"
      by (simp add: is_retry_def retries_def)
    with Response show ?thesis by (subst urlopen.simps) (simp add: inc)
  qed
  with IH show ?case by simp
qed

text \<open>
  Claim C3, as amended. One fetch makes at most 4 attempts: the first one and up to 3
  retries (\<^verbatim>\<open>total=3\<close> counts retries). When the first \<open>k \<le> 3\<close> attempts of the GET meet a network
  failure or a status in \<open>{429, 500, 502, 503, 504}\<close>, attempt \<open>k + 1\<close> is made. A request with
  another method is not retried on a response, whatever its status, nor on a failure
  while reading.
\<close>

theorem retry_attempts:
  "snd (session_get up n u ps) \<le> n + 4 \<and>
   (\<forall>k \<le> 3. (\<forall>i < k. transient (up (n + i) u ps)) \<longrightarrow> n + k < snd (session_get up n u ps)) \<and>
   (meth \<noteq> ''GET'' \<longrightarrow>
      (\<forall>resp. up n u ps = Response resp \<longrightarrow> urlopen retries meth up n u ps = (Inr resp, Suc n)) \<and>
      (\<forall>m. up n u ps = ReadFailure m \<longrightarrow>
         urlopen retries meth up n u ps = (Inl (ConnectionError m), Suc n)))"
proof (intro conjI allI impI)
  show "snd (session_get up n u ps) \<le> n + 4"
    using urlopen_attempts_upper [of retries "''GET''" up n u ps]
    by (simp add: session_get_def retries_def)
next
  fix k :: nat assume "k \<le> 3" and "\<forall>i < k. transient (up (n + i) u ps)"
  then show "n + k < snd (session_get up n u ps)"
    unfolding session_get_def
    by (intro urlopen_retries_transient) (simp_all add: retries_def is_method_retryable_def)
next
  fix resp assume "meth \<noteq> ''GET''" and "up n u ps = Response resp"
  then show "urlopen retries meth up n u ps = (Inr resp, Suc n)"
    by (subst urlopen.simps) (simp add: is_retry_def is_method_retryable_def retries_def)
next
  fix m assume "meth \<noteq> ''GET''" and "up n u ps = ReadFailure m"
  then show "urlopen retries meth up n u ps = (Inl (ConnectionError m), Suc n)"
    by (subst urlopen.simps) (simp add: increment_def is_method_retryable_def retries_def)
qed

text \<open>
  Claim C3 as stated fails: after 503 at three attempts a fourth attempt is made (and its
  \<^verbatim>\<open>200 OK\<close> is the result); with 503 at every attempt there are four attempts, not three; and a
  POST whose connection is refused is attempted four times too.
\<close>

theorem retry_attempts_counterexample:
  "forward_get ''https://api.open-meteo.com/v1'' busy_thrice 0 ''forecast'' []
     = (Inr (200, PStr ''OK''), 4) \<and>
   snd (session_get always_busy 0 ''https://api.open-meteo.com/v1/forecast'' []) = 4 \<and>
   snd (urlopen retries ''POST'' always_refused 0 ''https://api.open-meteo.com/v1/forecast'' []) = 4"
  by (simp add: forward_get_def session_get_def urlopen.simps busy_thrice_def always_busy_def
      always_refused_def busy_def is_retry_def retries_def is_method_retryable_def
      increment_def is_exhausted_def raise_for_status_def resp_json_def)


text \<open>
  503 at every attempt: the fourth attempt is made, and a POST gets the 503 back at once.
\<close>

theorem retry_attempts_witness:
  "snd (session_get always_busy 0 ''https://api.open-meteo.com/v1/forecast'' []) \<le> 4 \<and>
   3 < snd (session_get always_busy 0 ''https://api.open-meteo.com/v1/forecast'' []) \<and>
   urlopen retries ''POST'' always_busy 0 ''https://api.open-meteo.com/v1/forecast'' []
     = (Inr busy, Suc 0)"
proof -
  let ?u = "''https://api.open-meteo.com/v1/forecast''"
  have t: "\<forall>i < 3. transient (always_busy (0 + i) ?u [])"
    by (simp add: always_busy_def busy_def retries_def)
  have p: "''POST'' \<noteq> ''GET''" by simp
  have b: "always_busy 0 ?u [] = Response busy"
    by (simp add: always_busy_def)
  from retry_attempts [of always_busy 0 ?u "[]" "''POST''"]
  have "snd (session_get always_busy 0 ?u []) \<le> 4"
    and "\<forall>k \<le> 3. (\<forall>i < k. transient (always_busy (0 + i) ?u [])) \<longrightarrow>
           0 + k < snd (session_get always_busy 0 ?u [])"
    and "''POST'' \<noteq> ''GET'' \<longrightarrow>
      (\<forall>resp. always_busy 0 ?u [] = Response resp \<longrightarrow>
         urlopen retries ''POST'' always_busy 0 ?u [] = (Inr resp, Suc 0))"
    by simp_all
  with t p b show ?thesis
    by (metis add_0 order_refl)
qed

section \<open>Properties of the response cache\<close>

lemma evict_set: "evict m es = Inr es' \<Longrightarrow> set es' \<subseteq> set es"
  by (induction es) (auto split: if_splits)

lemma evict_distinct: "evict m es = Inr es' \<Longrightarrow> distinct (map fst es) \<Longrightarrow> distinct (map fst es')"
  by (induction es) (auto split: if_splits)

lemma evict_length: "evict m es = Inr es' \<Longrightarrow> int (length es') + 1 \<le> m"
  by (induction es) (auto split: if_splits)

lemma evict_ok: "1 \<le> m \<Longrightarrow> \<exists>es'. evict m es = Inr es'"
  by (induction es) auto

lemma length_move_to_end: "length (move_to_end k es) = length es"
  unfolding move_to_end_def
  by (induction es) auto

lemma set_move_to_end: "set (move_to_end k es) = set es"
  unfolding move_to_end_def by auto

lemma distinct_move_to_end:
  "distinct (map fst es) \<Longrightarrow> distinct (map fst (move_to_end k es))"
  unfolding move_to_end_def
  by (auto simp: distinct_map_filter)

lemma filter_key_length:
  "k \<in> set (map fst es) \<Longrightarrow> length (filter (\<lambda>e. fst e \<noteq> k) es) < length es"
proof (induction es)
  case Nil
  then show ?case by simp
next
  case (Cons e es)
  have le: "length (filter (\<lambda>e. fst e \<noteq> k) es) \<le> length es"
    by (rule length_filter_le)
  show ?case
  proof (cases "fst e = k")
    case True
    with le show ?thesis by (simp add: less_Suc_eq_le)
  next
    case False
    with Cons show ?thesis by auto
  qed
qed

lemma getitem_fields:
  "maxsize (snd (cache_getitem c t k)) = maxsize c" "ttl (snd (cache_getitem c t k)) = ttl c"
  by (auto simp: cache_getitem_def Let_def split: option.splits)

lemma setitem_fields:
  "maxsize (snd (cache_setitem c t k v)) = maxsize c" "ttl (snd (cache_setitem c t k v)) = ttl c"
  by (auto simp: cache_setitem_def expire_def Let_def split: sum.splits)

lemma getitem_inv: "cache_inv c \<Longrightarrow> cache_inv (snd (cache_getitem c t k))"
  by (auto simp: cache_inv_def cache_getitem_def Let_def length_move_to_end distinct_move_to_end
      split: option.splits)

lemma setitem_unfold:
  "cache_setitem c t k v =
     (let es = filter (\<lambda>(k, v, e). t < e) (entries c)
      in if 1 > maxsize c then (Inl (ValueError ''value too large''), c\<lparr>entries := es\<rparr>)
         else case (if k \<notin> set (map fst es) then evict (maxsize c) es else Inr es) of
                Inl e \<Rightarrow> (Inl e, c\<lparr>entries := []\<rparr>)
              | Inr es' \<Rightarrow>
                  (Inr (), c\<lparr>entries := filter (\<lambda>e. fst e \<noteq> k) es' @ [(k, v, t + ttl c)]\<rparr>))"
  by (simp add: cache_setitem_def expire_def Let_def split: sum.splits)

lemma setitem_inv:
  assumes "cache_inv c" shows "cache_inv (snd (cache_setitem c t k v))"
proof -
  define es where "es = filter (\<lambda>(k, v, e). t < e) (entries c)"
  have len: "int (length es) \<le> maxsize c"
    using assms length_filter_le [of "\<lambda>(k, v, e). t < e" "entries c"]
    unfolding cache_inv_def es_def by linarith
  have dist: "distinct (map fst es)"
    using assms by (simp add: cache_inv_def es_def distinct_map_filter)
  show ?thesis
  proof (cases "1 > maxsize c")
    case True
    with len dist show ?thesis
      by (simp add: setitem_unfold es_def [symmetric] cache_inv_def)
  next
    case False
    show ?thesis
    proof (cases "k \<in> set (map fst es)")
      case True
      from filter_key_length [OF True] len
      have l: "int (length (filter (\<lambda>e. fst e \<noteq> k) es)) + 1 \<le> maxsize c" by linarith
      have d: "distinct (map fst (filter (\<lambda>e. fst e \<noteq> k) es))"
        using dist by (simp add: distinct_map_filter)
      have "cache_setitem c t k v =
          (Inr (), c\<lparr>entries := filter (\<lambda>e. fst e \<noteq> k) es @ [(k, v, t + ttl c)]\<rparr>)"
        using True False unfolding setitem_unfold es_def [symmetric] by (simp add: Let_def)
      with l d show ?thesis
        by (auto simp: cache_inv_def)
    next
      case notin: False
      from False obtain es' where ev: "evict (maxsize c) es = Inr es'"
        using evict_ok [of "maxsize c" es] by auto
      have l: "int (length (filter (\<lambda>e. fst e \<noteq> k) es')) + 1 \<le> maxsize c"
        using evict_length [OF ev] length_filter_le [of "\<lambda>e. fst e \<noteq> k" es'] by linarith
      have d: "distinct (map fst (filter (\<lambda>e. fst e \<noteq> k) es'))"
        using evict_distinct [OF ev dist] by (simp add: distinct_map_filter)
      have "cache_setitem c t k v =
          (Inr (), c\<lparr>entries := filter (\<lambda>e. fst e \<noteq> k) es' @ [(k, v, t + ttl c)]\<rparr>)"
        using notin False ev unfolding setitem_unfold es_def [symmetric] by (simp add: Let_def)
      with l d show ?thesis
        by (auto simp: cache_inv_def)
    qed
  qed
qed

lemma run_inv: "cache_inv c \<Longrightarrow> cache_inv (run c ops)"
  unfolding run_def
proof (induction ops arbitrary: c)
  case Nil then show ?case by simp
next
  case (Cons op ops)
  have "cache_inv (apply_op c op)"
    using Cons.prems by (cases op) (simp_all add: getitem_inv setitem_inv)
  then show ?case using Cons.IH by simp
qed

lemma run_fields: "maxsize (run c ops) = maxsize c \<and> ttl (run c ops) = ttl c"
  unfolding run_def
proof (induction ops arbitrary: c)
  case Nil then show ?case by simp
next
  case (Cons op ops)
  have "maxsize (apply_op c op) = maxsize c \<and> ttl (apply_op c op) = ttl c"
    by (cases op) (simp_all add: getitem_fields setitem_fields)
  then show ?case using Cons.IH [of "apply_op c op"] by simp
qed

text \<open>
  Claim C7. From the empty cache built with a capacity \<open>m \<ge> 0\<close>, after any sequence of
  stores and lookups (so also after storing more than \<open>m\<close> distinct keys) the cache holds
  at most \<open>m\<close> entries, and no key has two entries.
\<close>

theorem cache_bounded:
  assumes "0 \<le> m"
  shows "int (length (entries (run (TTLCache m t) ops))) \<le> m \<and>
         distinct (map fst (entries (run (TTLCache m t) ops)))"
proof -
  have "cache_inv (TTLCache m t)"
    using assms by (simp add: cache_inv_def TTLCache_def)
  then have "cache_inv (run (TTLCache m t) ops)"
    by (rule run_inv)
  moreover have "maxsize (run (TTLCache m t) ops) = m"
    by (simp add: run_fields TTLCache_def)
  ultimately show ?thesis
    by (simp add: cache_inv_def)
qed

lemma getitem_expires_by:
  "expires_by k deadline c \<Longrightarrow> expires_by k deadline (snd (cache_getitem c t k'))"
  by (auto simp: expires_by_def cache_getitem_def Let_def set_move_to_end split: option.splits)

lemma setitem_expires_by:
  assumes "expires_by k deadline c" and "k' \<noteq> k"
  shows "expires_by k deadline (snd (cache_setitem c t k' v))"
proof -
  define es where "es = filter (\<lambda>(k, v, e). t < e) (entries c)"
  have es: "\<forall>x \<in> set es. fst x = k \<longrightarrow> snd (snd x) \<le> deadline"
    using assms(1) by (auto simp: expires_by_def es_def)
  have "\<forall>x \<in> set es'. fst x = k \<longrightarrow> snd (snd x) \<le> deadline"
    if "evict (maxsize c) es = Inr es'" for es'
    using es evict_set [OF that] by blast
  with es assms(2) show ?thesis
    unfolding setitem_unfold es_def [symmetric]
    by (auto simp: expires_by_def Let_def split: sum.splits)
qed

lemma run_expires_by:
  "expires_by k deadline c \<Longrightarrow> \<forall>op \<in> set ops. \<not> stores_key k op \<Longrightarrow> expires_by k deadline (run c ops)"
  unfolding run_def
proof (induction ops arbitrary: c)
  case Nil then show ?case by simp
next
  case (Cons op ops)
  have "expires_by k deadline (apply_op c op)"
    using Cons.prems by (cases op) (simp_all add: getitem_expires_by setitem_expires_by)
  then show ?case using Cons.IH Cons.prems(2) by simp
qed

lemma setitem_stored:
  assumes "cache_setitem c t k v = (Inr (), c1)"
  shows "\<exists>es. entries c1 = es @ [(k, v, t + ttl c)] \<and> k \<notin> set (map fst es)"
  using assms unfolding setitem_unfold
  by (auto simp: Let_def split: if_splits sum.splits)

text \<open>
  Claim C6. An entry stored under \<open>k\<close> at time \<open>T\<close> is absent from every lookup of \<open>k\<close> at a time
  \<open>t \<ge> T + ttl\<close>, whatever lookups and stores of other keys happen in between.
\<close>

theorem ttl_expiry:
  assumes "cache_setitem c T k v = (Inr (), c1)"
    and "\<forall>op \<in> set ops. \<not> stores_key k op"
    and "T + ttl c \<le> t"
  shows "fst (cache_getitem (run c1 ops) t k) = None"
proof -
  from setitem_stored [OF assms(1)]
  have "expires_by k (T + ttl c) c1"
    by (auto simp: expires_by_def)
  then have inv: "expires_by k (T + ttl c) (run c1 ops)"
    using assms(2) by (rule run_expires_by)
  show ?thesis
  proof (cases "map_of (entries (run c1 ops)) k")
    case None
    then show ?thesis by (simp add: cache_getitem_def)
  next
    case (Some ve)
    obtain v' e where ve: "ve = (v', e)" by (cases ve)
    from Some ve have "(k, v', e) \<in> set (entries (run c1 ops))"
      by (auto dest: map_of_SomeD)
    with inv have "e \<le> T + ttl c"
      by (auto simp: expires_by_def)
    with assms(3) have "\<not> t < e" by simp
    with Some ve show ?thesis
      by (simp add: cache_getitem_def Let_def)
  qed
qed

text \<open>Three keys into a cache for two: the oldest one is gone.\<close>

theorem cache_bounded_witness:
  "(0::int) \<le> 2 \<and>
   int (length (entries (run (TTLCache 2 60)
     [Store 0 ''a'' (200, PStr ''x''), Store 1 ''b'' (200, PStr ''y''),
      Store 2 ''c'' (502, PStr ''z'')]))) \<le> 2 \<and>
   map fst (entries (run (TTLCache 2 60)
     [Store 0 ''a'' (200, PStr ''x''), Store 1 ''b'' (200, PStr ''y''),
      Store 2 ''c'' (502, PStr ''z'')])) = [''b'', ''c'']"
  using cache_bounded [of 2 60
     "[Store 0 ''a'' (200, PStr ''x''), Store 1 ''b'' (200, PStr ''y''),
       Store 2 ''c'' (502, PStr ''z'')]"]
  by (simp add: run_def TTLCache_def cache_setitem_def expire_def)

text \<open>Stored at time 0 with a time-to-live of 60: absent at time 60.\<close>

theorem ttl_expiry_witness:
  "cache_setitem (TTLCache 2 60) 0 ''a'' (200, PStr ''x'')
     = (Inr (), \<lparr>maxsize = 2, ttl = 60, entries = [(''a'', (200, PStr ''x''), 60)]\<rparr>) \<and>
   0 + ttl (TTLCache 2 60) \<le> 60 \<and>
   fst (cache_getitem
     (run \<lparr>maxsize = 2, ttl = 60, entries = [(''a'', (200, PStr ''x''), 60)]\<rparr>
        [Lookup 10 ''a'', Store 20 ''b'' (200, PStr ''y'')]) 60 ''a'') = None"
proof -
  have h1: "cache_setitem (TTLCache 2 60) 0 ''a'' (200, PStr ''x'')
     = (Inr (), \<lparr>maxsize = 2, ttl = 60, entries = [(''a'', (200, PStr ''x''), 60)]\<rparr>)"
    by (simp add: TTLCache_def cache_setitem_def expire_def)
  have h2: "\<forall>op \<in> set [Lookup 10 ''a'', Store 20 ''b'' (200, PStr ''y'')]. \<not> stores_key ''a'' op"
    by simp
  have h3: "0 + ttl (TTLCache 2 60) \<le> 60"
    by (simp add: TTLCache_def)
  from ttl_expiry [OF h1 h2 h3] h1 h3 show ?thesis
    by blast
qed

section \<open>Properties of the forwarding coordinator\<close>

lemma setitem_ok:
  "1 \<le> maxsize c \<Longrightarrow> \<exists>c1. cache_setitem c t k v = (Inr (), c1)"
  using evict_ok [of "maxsize c" "filter (\<lambda>(k, v, e). t < e) (entries c)"]
  unfolding setitem_unfold by (auto simp: Let_def)

lemma setitem_lookup:
  assumes "cache_setitem c t k v = (Inr (), c1)"
  shows "map_of (entries c1) k = Some (v, t + ttl c)"
proof -
  from setitem_stored [OF assms] obtain es
    where "entries c1 = es @ [(k, v, t + ttl c)]" and "k \<notin> set (map fst es)" by blast
  then show ?thesis
    by (simp add: map_add_def map_of_eq_None_iff [THEN iffD2])
qed

lemma getitem_hit:
  "map_of (entries c) k = Some (v, e) \<Longrightarrow> t < e \<Longrightarrow> fst (cache_getitem c t k) = Some v"
  by (simp add: cache_getitem_def Let_def)

lemma getitem_miss:
  "fst (cache_getitem c t k) = None \<Longrightarrow>
   \<exists>c'. cache_getitem c t k = (None, c') \<and> maxsize c' = maxsize c \<and> ttl c' = ttl c"
  using getitem_fields [of c t k] by (cases "cache_getitem c t k") auto

text \<open>
  A miss with a capacity of at least 1: the result of \<^verbatim>\<open>_forward_get\<close> is returned and stored.
\<close>

lemma cached_forward_miss:
  assumes "0 < maxsize (cache w)"
    and "fst (cache_getitem (cache w) now (cache_key path ps)) = None"
  shows "\<exists>v n c1. forward_get base up (attempts w) path ps = (Inr v, n) \<and>
           cached_forward base up w now done path ps = (Inr v, \<lparr>cache = c1, attempts = n\<rparr>) \<and>
           map_of (entries c1) (cache_key path ps) = Some (v, done + ttl (cache w))"
proof -
  from getitem_miss [OF assms(2)] obtain c'
    where g: "cache_getitem (cache w) now (cache_key path ps) = (None, c')"
      and m: "maxsize c' = maxsize (cache w)" and t: "ttl c' = ttl (cache w)" by blast
  from forward_get_cases [of base up "attempts w" path ps] obtain v n
    where f: "forward_get base up (attempts w) path ps = (Inr v, n)"
    by (auto split: prod.splits sum.splits option.splits)
  from assms(1) m obtain c1
    where s: "cache_setitem c' done (cache_key path ps) v = (Inr (), c1)"
    using setitem_ok [of c' "done" "cache_key path ps" v] by auto
  from g f s have "cached_forward base up w now done path ps = (Inr v, \<lparr>cache = c1, attempts = n\<rparr>)"
    by (simp add: cached_forward_def)
  with f setitem_lookup [OF s] t show ?thesis by auto
qed

text \<open>
  Claim C1. A first call \<^verbatim>\<open>_cached_forward(path, params)\<close> that misses the cache and stores its
  result (the capacity is at least 1) is followed by a second call with the same path and
  parameters at a time \<open>now2\<close> before \<open>done1 + ttl\<close>, \<open>done1\<close> being the time of the store: the
  second call returns the same result and makes no attempt against the upstream API,
  whatever the upstream API would answer.
\<close>

theorem cached_forward_hit:
  assumes "0 < maxsize (cache w)"
    and "fst (cache_getitem (cache w) now1 (cache_key path ps)) = None"
    and "cached_forward base up w now1 done1 path ps = (r, w1)"
    and "now2 < done1 + ttl (cache w)"
  shows "\<exists>w2. cached_forward base up2 w1 now2 done2 path ps = (r, w2) \<and> attempts w2 = attempts w1"
proof -
  from cached_forward_miss [OF assms(1,2), of base up done1] assms(3) obtain v n c1
    where r: "r = Inr v" and w1: "w1 = \<lparr>cache = c1, attempts = n\<rparr>"
      and l: "map_of (entries c1) (cache_key path ps) = Some (v, done1 + ttl (cache w))"
    by auto
  from getitem_hit [OF l assms(4)] obtain c2
    where "cache_getitem c1 now2 (cache_key path ps) = (Some v, c2)"
    by (cases "cache_getitem c1 now2 (cache_key path ps)") auto
  with r w1 show ?thesis
    by (simp add: cached_forward_def)
qed


text \<open>
  The scenario of the specification: upstream answers \<^verbatim>\<open>200 {"temp": 21}\<close>; the second call,
  30 seconds later, is served although the upstream API is unreachable.
\<close>

theorem cached_forward_hit_witness:
  "cached_forward ''https://api.open-meteo.com/v1''
     (\<lambda>n u ps. Response \<lparr>status_code = 200, reason = ''OK'', url = u, resp_text = [],
        json_body = Some (PDict [(''temp'', PNum 21)]), retry_after = False\<rparr>)
     \<lparr>cache = TTLCache 1024 60, attempts = 0\<rparr> 0 1 ''forecast''
     [(''latitude'', ''10''), (''longitude'', ''20'')]
   = (Inr (200, PDict [(''temp'', PNum 21)]),
      \<lparr>cache = \<lparr>maxsize = 1024, ttl = 60, entries =
          [(cache_key ''forecast'' [(''latitude'', ''10''), (''longitude'', ''20'')],
            (200, PDict [(''temp'', PNum 21)]), 61)]\<rparr>,
       attempts = 1\<rparr>) \<and>
   (\<exists>w2. cached_forward ''https://api.open-meteo.com/v1''
       (\<lambda>n u ps. ConnectFailure ''unreachable'')
       \<lparr>cache = \<lparr>maxsize = 1024, ttl = 60, entries =
          [(cache_key ''forecast'' [(''latitude'', ''10''), (''longitude'', ''20'')],
            (200, PDict [(''temp'', PNum 21)]), 61)]\<rparr>,
        attempts = 1\<rparr> 30 31 ''forecast''
       [(''latitude'', ''10''), (''longitude'', ''20'')]
     = (Inr (200, PDict [(''temp'', PNum 21)]), w2) \<and> attempts w2 = 1)"
proof -
  let ?w = "\<lparr>cache = TTLCache 1024 60, attempts = 0\<rparr>"
  let ?ps = "[(''latitude'', ''10''), (''longitude'', ''20'')]"
  have h1: "0 < maxsize (cache ?w)"
    by (simp add: TTLCache_def)
  have h2: "fst (cache_getitem (cache ?w) 0 (cache_key ''forecast'' ?ps)) = None"
    by (simp add: TTLCache_def cache_getitem_def)
  have h3: "cached_forward ''https://api.open-meteo.com/v1''
     (\<lambda>n u ps. Response \<lparr>status_code = 200, reason = ''OK'', url = u, resp_text = [],
        json_body = Some (PDict [(''temp'', PNum 21)]), retry_after = False\<rparr>)
     ?w 0 1 ''forecast'' ?ps
   = (Inr (200, PDict [(''temp'', PNum 21)]),
      \<lparr>cache = \<lparr>maxsize = 1024, ttl = 60, entries =
          [(cache_key ''forecast'' ?ps, (200, PDict [(''temp'', PNum 21)]), 61)]\<rparr>,
       attempts = 1\<rparr>)"
    by (simp add: cached_forward_def TTLCache_def cache_getitem_def forward_get_def
        session_get_def urlopen.simps is_retry_def retries_def is_method_retryable_def
        raise_for_status_def resp_json_def cache_setitem_def expire_def)
  have h4: "30 < 1 + ttl (cache ?w)"
    by (simp add: TTLCache_def)
  from cached_forward_hit [OF h1 h2 h3 h4, of
      "\<lambda>n u ps. ConnectFailure ''unreachable''" 31] h3
  show ?thesis by simp
qed

lemma str_int_503: "str_int 503 = ''503''"
  by (simp add: str_int_def digit_char_def)

lemma urlopen_all_503:
  "\<forall>i. \<exists>resp. up i u ps = Response resp \<and> status_code resp = 503 \<Longrightarrow>
   0 \<le> r_total r \<Longrightarrow> 503 \<in> set (r_status_forcelist r) \<Longrightarrow> is_method_retryable r meth \<Longrightarrow>
   urlopen r meth up n u ps =
     (Inl (RetryError ''too many 503 error responses''), n + nat (r_total r) + 1)"
proof (induction r meth up n u ps rule: urlopen.induct)
  case (1 r meth up n u ps)
  from "1.prems"(1) obtain resp where resp: "up n u ps = Response resp" "status_code resp = 503"
    by blast
  from "1.prems" resp have retry: "is_retry r meth (status_code resp) (retry_after resp)"
    by (auto simp: is_retry_def)
  show ?case
  proof (cases "r_total r = 0")
    case True
    then have "increment r meth (StatusCause 503) = Inl (RetryError ''too many 503 error responses'')"
      by (simp add: increment_def is_exhausted_def str_int_503)
    with resp retry True show ?thesis
      by (subst urlopen.simps) simp
  next
    case False
    with "1.prems" have inc: "increment r meth (StatusCause 503) = Inr (r\<lparr>r_total := r_total r - 1\<rparr>)"
      by (simp add: increment_def is_exhausted_def)
    have "urlopen (r\<lparr>r_total := r_total r - 1\<rparr>) meth up (Suc n) u ps =
        (Inl (RetryError ''too many 503 error responses''),
         Suc n + nat (r_total (r\<lparr>r_total := r_total r - 1\<rparr>)) + 1)"
    proof (rule "1.IH"(3) [OF resp(1) retry])
      show "increment r meth (StatusCause (status_code resp)) = Inr (r\<lparr>r_total := r_total r - 1\<rparr>)"
        using inc resp by simp
    qed (use "1.prems" False in \<open>simp_all add: is_method_retryable_def\<close>)
    moreover have "Suc n + nat (r_total r - 1) + 1 = n + nat (r_total r) + 1"
      using "1.prems" False by simp
    ultimately show ?thesis
      using resp retry inc by (subst urlopen.simps) simp
  qed
qed


lemma forward_get_all_503:
  assumes "\<forall>i. \<exists>resp. up i (base @ ''/'' @ lstrip_slash path) ps = Response resp \<and> status_code resp = 503"
  shows "forward_get base up n path ps =
           (Inr (502, PDict [(''error'', PStr ''upstream_error''),
                   (''detail'', PStr ''too many 503 error responses'')]), n + 4)"
proof -
  have "session_get up n (base @ ''/'' @ lstrip_slash path) ps =
          (Inl (RetryError ''too many 503 error responses''), n + nat (r_total retries) + 1)"
    unfolding session_get_def
    using assms
      urlopen_all_503 [of up "base @ ''/'' @ lstrip_slash path" ps retries "''GET''" n]
    by (simp add: retries_def is_method_retryable_def)
  then show ?thesis
    by (simp add: forward_get_cases upstream_error_def retries_def)
qed

text \<open>
  Claim C5. On a miss, whatever \<^verbatim>\<open>_forward_get\<close> returns is stored under the key of
  \<open>(path, params)\<close> with the expiry time \<open>done + ttl\<close>, and lookups before that time give it
  back: the status plays no part. In particular, when upstream answers 503 at every
  attempt, the result is the 502 \<^verbatim>\<open>upstream_error\<close> pair, and that pair is what is stored and
  served.
\<close>

theorem failure_cached:
  assumes "0 < maxsize (cache w)"
    and "fst (cache_getitem (cache w) now (cache_key path ps)) = None"
  shows "(\<exists>v w1. cached_forward base up w now done path ps = (Inr v, w1) \<and>
            fst (forward_get base up (attempts w) path ps) = Inr v \<and>
            map_of (entries (cache w1)) (cache_key path ps) = Some (v, done + ttl (cache w)) \<and>
            (\<forall>t. t < done + ttl (cache w) \<longrightarrow>
               fst (cache_getitem (cache w1) t (cache_key path ps)) = Some v)) \<and>
         ((\<forall>i. \<exists>resp. up i (base @ ''/'' @ lstrip_slash path) ps = Response resp \<and>
                  status_code resp = 503) \<longrightarrow>
            fst (cached_forward base up w now done path ps) =
              Inr (502, PDict [(''error'', PStr ''upstream_error''),
                     (''detail'', PStr ''too many 503 error responses'')]))"
proof -
  from cached_forward_miss [OF assms, of base up "done"] obtain v n c1
    where f: "forward_get base up (attempts w) path ps = (Inr v, n)"
      and c: "cached_forward base up w now done path ps = (Inr v, \<lparr>cache = c1, attempts = n\<rparr>)"
      and l: "map_of (entries c1) (cache_key path ps) = Some (v, done + ttl (cache w))"
    by blast
  have "fst (cache_getitem c1 t (cache_key path ps)) = Some v" if "t < done + ttl (cache w)" for t
    using getitem_hit [OF l that] .
  with f c l have first: "\<exists>v w1. cached_forward base up w now done path ps = (Inr v, w1) \<and>
            fst (forward_get base up (attempts w) path ps) = Inr v \<and>
            map_of (entries (cache w1)) (cache_key path ps) = Some (v, done + ttl (cache w)) \<and>
            (\<forall>t. t < done + ttl (cache w) \<longrightarrow>
               fst (cache_getitem (cache w1) t (cache_key path ps)) = Some v)"
    by auto
  have "fst (cached_forward base up w now done path ps) =
          Inr (502, PDict [(''error'', PStr ''upstream_error''),
                 (''detail'', PStr ''too many 503 error responses'')])"
    if "\<forall>i. \<exists>resp. up i (base @ ''/'' @ lstrip_slash path) ps = Response resp \<and> status_code resp = 503"
    using that forward_get_all_503 [of up base path ps "attempts w"] f c by simp
  with first show ?thesis by blast
qed

text \<open>
  Upstream answers 503 at every attempt: four attempts, then the 502 result is stored and
  found again at time 61.
\<close>

theorem failure_cached_witness:
  "cached_forward ''https://api.open-meteo.com/v1''
     (\<lambda>n u ps. Response \<lparr>status_code = 503, reason = ''Service Unavailable'', url = u,
        resp_text = [], json_body = None, retry_after = False\<rparr>)
     \<lparr>cache = TTLCache 1024 60, attempts = 0\<rparr> 0 2 ''forecast'' [(''latitude'', ''10'')]
   = (Inr (502, PDict [(''error'', PStr ''upstream_error''),
                 (''detail'', PStr ''too many 503 error responses'')]),
      \<lparr>cache = \<lparr>maxsize = 1024, ttl = 60, entries =
          [(cache_key ''forecast'' [(''latitude'', ''10'')],
            (502, PDict [(''error'', PStr ''upstream_error''),
                 (''detail'', PStr ''too many 503 error responses'')]), 62)]\<rparr>,
       attempts = 4\<rparr>) \<and>
   fst (cache_getitem \<lparr>maxsize = 1024, ttl = 60, entries =
          [(cache_key ''forecast'' [(''latitude'', ''10'')],
            (502, PDict [(''error'', PStr ''upstream_error''),
                 (''detail'', PStr ''too many 503 error responses'')]), 62)]\<rparr>
        61 (cache_key ''forecast'' [(''latitude'', ''10'')]))
   = Some (502, PDict [(''error'', PStr ''upstream_error''),
                 (''detail'', PStr ''too many 503 error responses'')])"
proof -
  let ?w = "\<lparr>cache = TTLCache 1024 60, attempts = 0\<rparr>"
  let ?up = "\<lambda>(n::nat) (u::string) (ps::params).
     Response \<lparr>status_code = 503, reason = ''Service Unavailable'', url = u,
        resp_text = [], json_body = None, retry_after = False\<rparr>"
  let ?ps = "[(''latitude'', ''10'')]"
  have h1: "0 < maxsize (cache ?w)"
    by (simp add: TTLCache_def)
  have h2: "fst (cache_getitem (cache ?w) 0 (cache_key ''forecast'' ?ps)) = None"
    by (simp add: TTLCache_def cache_getitem_def)
  have h3: "\<forall>i. \<exists>resp. ?up i (''https://api.open-meteo.com/v1'' @ ''/'' @ lstrip_slash ''forecast'') ?ps
              = Response resp \<and> status_code resp = 503"
    by simp
  from failure_cached [OF h1 h2, of "''https://api.open-meteo.com/v1''" ?up 2] h3
  obtain v w1 where
    a: "cached_forward ''https://api.open-meteo.com/v1'' ?up ?w 0 2 ''forecast'' ?ps = (Inr v, w1)"
    and b: "map_of (entries (cache w1)) (cache_key ''forecast'' ?ps) = Some (v, 2 + ttl (cache ?w))"
    and c: "\<forall>t. t < 2 + ttl (cache ?w) \<longrightarrow>
               fst (cache_getitem (cache w1) t (cache_key ''forecast'' ?ps)) = Some v"
    and d: "v = (502, PDict [(''error'', PStr ''upstream_error''),
                     (''detail'', PStr ''too many 503 error responses'')])"
    by auto
  have e: "cached_forward ''https://api.open-meteo.com/v1'' ?up ?w 0 2 ''forecast'' ?ps
     = (Inr (502, PDict [(''error'', PStr ''upstream_error''),
                 (''detail'', PStr ''too many 503 error responses'')]),
      \<lparr>cache = \<lparr>maxsize = 1024, ttl = 60, entries =
          [(cache_key ''forecast'' ?ps,
            (502, PDict [(''error'', PStr ''upstream_error''),
                 (''detail'', PStr ''too many 503 error responses'')]), 62)]\<rparr>,
       attempts = 4\<rparr>)"
    by (simp add: cached_forward_def TTLCache_def cache_getitem_def forward_get_all_503
        cache_setitem_def expire_def)
  from a c d e show ?thesis
    by (simp add: TTLCache_def)
qed

section \<open>Properties of the route /weather\<close>

text \<open>
  Without a non-empty latitude or without a non-empty longitude the answer is 400, and
  nothing else happens.
\<close>

lemma weather_proxy_missing:
  assumes "\<not> truthy (py_or (args_get args ''latitude'') (args_get args ''lat'')) \<or>
           \<not> truthy (py_or (py_or (args_get args ''longitude'') (args_get args ''lon''))
                        (args_get args ''long''))"
  shows "weather_proxy base up w now done args = (Inr missing_parameters, w)"
  using assms by (auto simp: weather_proxy_def Let_def)

text \<open>
  Claim C9 at the request \<^verbatim>\<open>/weather?lat=10&long=20\<close>. The request passes the check of the
  parameters, since \<^verbatim>\<open>long\<close> counts as a longitude there; the dictionary that is forwarded to
  the upstream path \<^verbatim>\<open>forecast\<close> still has the name \<^verbatim>\<open>long\<close> and no \<^verbatim>\<open>longitude\<close>: only \<^verbatim>\<open>lat\<close> and
  \<^verbatim>\<open>lon\<close> are renamed.
\<close>

theorem weather_proxy_long_alias:
  "forward_params [(''lat'', ''10''), (''long'', ''20'')] = [(''long'', ''20''), (''latitude'', ''10'')] \<and>
   weather_proxy base up w now done [(''lat'', ''10''), (''long'', ''20'')] =
     (case cached_forward base up w now done ''forecast''
             [(''long'', ''20''), (''latitude'', ''10'')] of
        (Inl e, w') \<Rightarrow> (Inl e, w')
      | (Inr r, w') \<Rightarrow> (Inr (relay r), w'))"
proof -
  have fp: "forward_params [(''lat'', ''10''), (''long'', ''20'')]
      = [(''long'', ''20''), (''latitude'', ''10'')]"
    by (simp add: forward_params_def dict_contains_def dict_pop_def)
  then show ?thesis
    by (simp add: weather_proxy_def args_get_def py_or_def)
qed

text \<open>
  The same request against an upstream API that answers 503 at every attempt, from an
  empty cache: the answer is relayed, and the cache entry is keyed by the dictionary with
  the name \<^verbatim>\<open>long\<close>.
\<close>

theorem weather_proxy_long_alias_witness:
  "weather_proxy ''https://api.open-meteo.com/v1'' always_busy
     \<lparr>cache = TTLCache 1024 60, attempts = 0\<rparr> 0 2 [(''lat'', ''10''), (''long'', ''20'')]
   = (Inr (JsonBody (PDict [(''error'', PStr ''upstream_error''),
              (''detail'', PStr ''too many 503 error responses'')]), 502),
      \<lparr>cache = \<lparr>maxsize = 1024, ttl = 60, entries =
          [(cache_key ''forecast'' [(''long'', ''20''), (''latitude'', ''10'')],
            (502, PDict [(''error'', PStr ''upstream_error''),
                 (''detail'', PStr ''too many 503 error responses'')]), 62)]\<rparr>,
       attempts = 4\<rparr>)"
proof -
  have "cached_forward ''https://api.open-meteo.com/v1'' always_busy
     \<lparr>cache = TTLCache 1024 60, attempts = 0\<rparr> 0 2 ''forecast''
     [(''long'', ''20''), (''latitude'', ''10'')]
   = (Inr (502, PDict [(''error'', PStr ''upstream_error''),
                 (''detail'', PStr ''too many 503 error responses'')]),
      \<lparr>cache = \<lparr>maxsize = 1024, ttl = 60, entries =
          [(cache_key ''forecast'' [(''long'', ''20''), (''latitude'', ''10'')],
            (502, PDict [(''error'', PStr ''upstream_error''),
                 (''detail'', PStr ''too many 503 error responses'')]), 62)]\<rparr>,
       attempts = 4\<rparr>)"
    by (simp add: cached_forward_def TTLCache_def cache_getitem_def forward_get_all_503
        always_busy_def busy_def cache_setitem_def expire_def)
  with weather_proxy_long_alias [of "''https://api.open-meteo.com/v1''" always_busy
      "\<lparr>cache = TTLCache 1024 60, attempts = 0\<rparr>" 0 2]
  show ?thesis
    by (simp add: relay_def)
qed

end
